theory Spec2Isabelle
  imports Main
begin

section \<open>The Cedar policy splitter (\<open>splitCedarPolicies\<close>)\<close>

text \<open>
  The source is one TypeScript function, \<open>splitCedarPolicies(policyFile: string)\<close>. It scans
  the document once, character by character, with five pieces of mutable state (\<open>buf\<close>,
  \<open>inString\<close>, \<open>inLineComment\<close>, \<open>inBlockComment\<close>, \<open>prev\<close>) and the output array
  \<open>results\<close>; after the loop it throws when \<open>buf.trim()\<close> is not empty, and otherwise copies
  the results into an object under the keys \<open>policy_0\<close>, \<open>policy_1\<close>, ...

  A document is a \<open>string\<close> (a list of \<open>char\<close>). A one-character JavaScript string that may
  be empty (\<open>prev\<close>, initially \<open>""\<close>, and \<open>next\<close>, \<open>""\<close> at the last index) is a
  \<open>char option\<close>, with \<open>None\<close> for \<open>""\<close>. Code units above \<open>0xFF\<close> are outside the model.
\<close>

subsection \<open>Characters the scanner looks at\<close>

definition newline :: char where "newline = CHR 0x0A"
definition dquote :: char where "dquote = CHR 0x22"
definition backslash :: char where "backslash = CHR 0x5C"
definition slash :: char where "slash = CHR ''/''"
definition star :: char where "star = CHR ''*''"
definition semicolon :: char where "semicolon = CHR '';''"

subsection \<open>\<open>String.prototype.trim\<close>\<close>

text \<open>
  \<open>trim\<close> removes white space and line terminators from both ends. Among the code units
  up to \<open>0xFF\<close> these are TAB, LF, VT, FF, CR, SP and NBSP.
\<close>

definition is_ws :: "char \<Rightarrow> bool" where
  "is_ws c = (c = CHR 0x09 \<or> c = CHR 0x0A \<or> c = CHR 0x0B \<or> c = CHR 0x0C \<or> c = CHR 0x0D
              \<or> c = CHR 0x20 \<or> c = CHR 0xA0)"

definition trim :: "string \<Rightarrow> string" where
  "trim s = rev (dropWhile is_ws (rev (dropWhile is_ws s)))"

subsection \<open>The scan state and one loop iteration\<close>

record scan_state =
  results :: "string list"
  buf :: string
  inString :: bool
  inLineComment :: bool
  inBlockComment :: bool
  prev :: "char option"

definition init_state :: scan_state where
  "init_state = \<lparr>results = [], buf = [], inString = False, inLineComment = False,
                 inBlockComment = False, prev = None\<rparr>"

text \<open>
  \<open>step st ch next\<close> is the body of the \<open>for\<close> loop at \<open>ch = policyFile[i]\<close> with
  lookahead \<open>next\<close>. It returns the new state and whether the body ran the extra \<open>i++\<close>
  (the two branches that open a comment consume \<open>next\<close> as well). The branches are in the
  order of the source; each ends in \<open>continue\<close> but the last.
\<close>

definition step :: "scan_state \<Rightarrow> char \<Rightarrow> char option \<Rightarrow> scan_state \<times> bool" where
  "step st ch next =
    (if inLineComment st then
       (st\<lparr>buf := buf st @ [ch],
           inLineComment := (if ch = newline then False else inLineComment st),
           prev := Some ch\<rparr>, False)
     else if inBlockComment st then
       (st\<lparr>buf := buf st @ [ch],
           inBlockComment := (if prev st = Some star \<and> ch = slash then False
                              else inBlockComment st),
           prev := Some ch\<rparr>, False)
     else if \<not> inString st \<and> ch = slash \<and> next = Some slash then
       (st\<lparr>inLineComment := True, buf := buf st @ [ch] @ [slash], prev := Some slash\<rparr>, True)
     else if \<not> inString st \<and> ch = slash \<and> next = Some star then
       (st\<lparr>inBlockComment := True, buf := buf st @ [ch] @ [star], prev := Some star\<rparr>, True)
     else if ch = dquote \<and> prev st \<noteq> Some backslash then
       (st\<lparr>inString := \<not> inString st, buf := buf st @ [ch], prev := Some ch\<rparr>, False)
     else
       (let st1 = st\<lparr>buf := buf st @ [ch]\<rparr>;
            st2 = (if \<not> inString st1 \<and> ch = semicolon then
                     (let policy = trim (buf st1);
                          st3 = (if length policy > 0
                                 then st1\<lparr>results := results st1 @ [policy]\<rparr> else st1)
                      in st3\<lparr>buf := []\<rparr>)
                   else st1)
        in (st2\<lparr>prev := Some ch\<rparr>, False)))"

subsection \<open>The loop\<close>

text \<open>
  The second argument is the part of the document from index \<open>i\<close> on, so \<open>ch\<close> is its head
  and \<open>next\<close> the head of its tail, if any. An iteration that ran the extra \<open>i++\<close> drops two
  characters, any other drops one.
\<close>

definition lookahead :: "string \<Rightarrow> char option" where
  "lookahead rest = (case rest of [] \<Rightarrow> None | n # _ \<Rightarrow> Some n)"

function scan :: "scan_state \<Rightarrow> string \<Rightarrow> scan_state" where
  "scan st [] = st"
| "scan st (ch # rest) =
     (case step st ch (lookahead rest) of
        (st', skip) \<Rightarrow> scan st' (if skip then tl rest else rest))"
  by pat_completeness auto
termination
  by (relation "measure (\<lambda>(st, cs). length cs)") auto

subsection \<open>Building the returned object\<close>

text \<open>
  The returned object is an association list in insertion order: assigning to a key that
  exists replaces its value in place, assigning to a new key appends it. The template
  literal \<open>`policy_${idx}`\<close> prints \<open>idx\<close> in decimal.
\<close>

definition digit_char :: "nat \<Rightarrow> char" where
  "digit_char d = char_of (48 + d)"

fun string_of_nat :: "nat \<Rightarrow> string" where
  "string_of_nat n =
     (if n < 10 then [digit_char n] else string_of_nat (n div 10) @ [digit_char (n mod 10)])"

declare string_of_nat.simps [simp del]

definition policy_key :: "nat \<Rightarrow> string" where
  "policy_key idx = ''policy_'' @ string_of_nat idx"

fun assign :: "string \<Rightarrow> string \<Rightarrow> (string \<times> string) list \<Rightarrow> (string \<times> string) list" where
  "assign k v [] = [(k, v)]"
| "assign k v (p # ps) = (if fst p = k then (k, v) # ps else p # assign k v ps)"

function fill :: "string list \<Rightarrow> nat \<Rightarrow> (string \<times> string) list \<Rightarrow> (string \<times> string) list" where
  "fill filteredResults idx finalResults =
     (if idx < length filteredResults
      then fill filteredResults (idx + 1)
             (assign (policy_key idx) (filteredResults ! idx) finalResults)
      else finalResults)"
  by pat_completeness auto
termination
  by (relation "measure (\<lambda>(fr, idx, m). length fr - idx)") auto

declare fill.simps [simp del]

subsection \<open>The whole function\<close>

datatype split_error = TrailingContentError

definition splitCedarPolicies :: "string \<Rightarrow> split_error + (string \<times> string) list" where
  "splitCedarPolicies policyFile =
     (let st = scan init_state policyFile;
          tail = trim (buf st)
      in if length tail > 0 then Inl TrailingContentError
         else Inr (fill (filter (\<lambda>p. length p > 0) (results st)) 0 []))"

subsection \<open>Auxiliary notions for the proofs\<close>

text \<open>
  A state is \<open>structural\<close> when the scanner is neither in a string nor in a comment: the
  positions where terminators and comment openers are recognised. \<open>prev_after p cs\<close> is the
  lookback after the characters \<open>cs\<close> have been consumed, starting from lookback \<open>p\<close>.
  \<open>normal r p\<close> is the state right after a statement was emitted (or at the start): empty
  buffer, no mode flag set, \<open>r\<close> the statements so far.
\<close>

definition structural :: "scan_state \<Rightarrow> bool" where
  "structural st = (\<not> inString st \<and> \<not> inLineComment st \<and> \<not> inBlockComment st)"

definition prev_after :: "char option \<Rightarrow> string \<Rightarrow> char option" where
  "prev_after p cs = (if cs = [] then p else Some (last cs))"

definition normal :: "string list \<Rightarrow> char option \<Rightarrow> scan_state" where
  "normal r p = \<lparr>results = r, buf = [], inString = False, inLineComment = False,
                 inBlockComment = False, prev = p\<rparr>"


fun line_rest :: "string \<Rightarrow> string" where
  "line_rest [] = []"
| "line_rest (c # cs) = (if c = newline then cs else line_rest cs)"

fun block_rest :: "char \<Rightarrow> string \<Rightarrow> string" where
  "block_rest p [] = []"
| "block_rest p (c # cs) = (if p = star \<and> c = slash then cs else block_rest c cs)"

function comment_only :: "string \<Rightarrow> bool" where
  "comment_only [] = True"
| "comment_only [c] = is_ws c"
| "comment_only (c # d # ds) =
     (if is_ws c then comment_only (d # ds)
      else if c = slash \<and> d = slash then comment_only (line_rest ds)
      else if c = slash \<and> d = star then comment_only (block_rest star ds)
      else False)"
  by pat_completeness auto
termination
proof (relation "measure length")
  have l: "length (line_rest xs) \<le> length xs" for xs
    by (induction xs) auto
  have b: "length (block_rest p xs) \<le> length xs" for p xs
    by (induction xs arbitrary: p) (auto intro: le_SucI)
  show "wf (measure length)" by simp
  show "(d # ds, c # d # ds) \<in> measure length" for c d ds by simp
  show "(line_rest ds, c # d # ds) \<in> measure length" for c d ds
    using l [of ds] by simp
  show "(block_rest star ds, c # d # ds) \<in> measure length" for c d ds
    using b [of star ds] by simp
qed

declare scan.simps(2) [simp del]

section \<open>Properties\<close>

subsection \<open>Trimming\<close>

lemma trim_all_ws: "\<forall>c\<in>set w. is_ws c \<Longrightarrow> trim w = []"
proof -
  assume "\<forall>c\<in>set w. is_ws c"
  then have e: "dropWhile is_ws w = []" by (simp add: dropWhile_eq_Nil_conv)
  show ?thesis unfolding trim_def by (simp only: e rev.simps dropWhile.simps)
qed

lemma trim_eq_Nil_iff: "trim x = [] \<longleftrightarrow> (\<forall>c\<in>set x. is_ws c)"
proof
  assume "trim x = []"
  then have "dropWhile is_ws (rev (dropWhile is_ws x)) = []" by (simp add: trim_def)
  then have "\<forall>c\<in>set (dropWhile is_ws x). is_ws c" by (simp add: dropWhile_eq_Nil_conv)
  moreover have "dropWhile is_ws x = [] \<or> \<not> is_ws (hd (dropWhile is_ws x))"
    using hd_dropWhile [of is_ws x] by blast
  ultimately have "dropWhile is_ws x = []"
    by (metis hd_in_set)
  then show "\<forall>c\<in>set x. is_ws c" by (simp add: dropWhile_eq_Nil_conv)
qed (rule trim_all_ws)

lemma trim_ws_prefix: "\<forall>c\<in>set w. is_ws c \<Longrightarrow> trim (w @ x) = trim x"
  by (simp add: trim_def dropWhile_append)

lemma trim_last_nonws:
  assumes "x \<noteq> []" and "\<not> is_ws (last x)"
  shows "trim x = dropWhile is_ws x"
proof -
  have ne: "dropWhile is_ws x \<noteq> []"
    using assms by (metis dropWhile_eq_Nil_conv last_in_set)
  then have "last (dropWhile is_ws x) = last x"
    by (metis append_Nil2 last_appendR takeWhile_dropWhile_id)
  with assms ne have "\<not> is_ws (hd (rev (dropWhile is_ws x)))"
    by (simp add: hd_rev)
  then have "dropWhile is_ws (rev (dropWhile is_ws x)) = rev (dropWhile is_ws x)"
    using ne by (cases "rev (dropWhile is_ws x)") auto
  then show ?thesis by (simp add: trim_def)
qed

lemma trim_last_nonws_props:
  assumes "x \<noteq> []" and "\<not> is_ws (last x)"
  shows "trim x \<noteq> []" and "last (trim x) = last x" and "\<not> is_ws (hd (trim x))"
proof -
  have t: "trim x = dropWhile is_ws x" using assms by (rule trim_last_nonws)
  have ne: "dropWhile is_ws x \<noteq> []"
    using assms by (metis dropWhile_eq_Nil_conv last_in_set)
  show "trim x \<noteq> []" using t ne by simp
  show "last (trim x) = last x"
    using t ne by (metis append_Nil2 last_appendR takeWhile_dropWhile_id)
  show "\<not> is_ws (hd (trim x))" using t ne by (simp add: hd_dropWhile)
qed

lemma trim_decompose:
  assumes "x \<noteq> []" and "\<not> is_ws (last x)"
  shows "x = takeWhile is_ws x @ trim x"
  using trim_last_nonws [OF assms] by simp

lemma trim_idem_stmt:
  assumes "x \<noteq> []" and "\<not> is_ws (last x)"
  shows "trim (trim x) = trim x"
proof -
  have "trim x \<noteq> []" "\<not> is_ws (last (trim x))" "\<not> is_ws (hd (trim x))"
    using trim_last_nonws_props [OF assms] assms by simp_all
  then show ?thesis
    by (metis dropWhile_eq_self_iff trim_last_nonws)
qed

subsection \<open>Keys and the returned object\<close>

lemma digit_char_inj: "a < 10 \<Longrightarrow> b < 10 \<Longrightarrow> digit_char a = digit_char b \<Longrightarrow> a = b"
proof -
  assume a: "a < 10" and b: "b < 10" and e: "digit_char a = digit_char b"
  from e have "of_char (char_of (48 + a) :: char) = (of_char (char_of (48 + b) :: char) :: nat)"
    by (simp add: digit_char_def)
  then have "(48 + a) mod 256 = (48 + b) mod 256" by simp
  with a b show "a = b" by simp
qed

lemma string_of_nat_nonempty: "string_of_nat n \<noteq> []"
  by (subst string_of_nat.simps) simp

lemma string_of_nat_inj: "string_of_nat m = string_of_nat n \<Longrightarrow> m = n"
proof (induction m arbitrary: n rule: string_of_nat.induct)
  case (1 m)
  show ?case
  proof (cases "m < 10")
    case True
    then have sm: "string_of_nat m = [digit_char m]" by (subst string_of_nat.simps) simp
    show ?thesis
    proof (cases "n < 10")
      case True
      then have "string_of_nat n = [digit_char n]" by (subst string_of_nat.simps) simp
      with sm "1.prems" have "digit_char m = digit_char n" by simp
      with \<open>m < 10\<close> \<open>n < 10\<close> show ?thesis by (rule digit_char_inj)
    next
      case False
      then have "string_of_nat n = string_of_nat (n div 10) @ [digit_char (n mod 10)]"
        by (subst string_of_nat.simps) simp
      with sm "1.prems" have "string_of_nat (n div 10) = []" by simp
      then show ?thesis by (simp add: string_of_nat_nonempty)
    qed
  next
    case False
    then have sm: "string_of_nat m = string_of_nat (m div 10) @ [digit_char (m mod 10)]"
      by (subst string_of_nat.simps) simp
    show ?thesis
    proof (cases "n < 10")
      case True
      then have "string_of_nat n = [digit_char n]" by (subst string_of_nat.simps) simp
      with sm "1.prems" have "string_of_nat (m div 10) = []" by simp
      then show ?thesis by (simp add: string_of_nat_nonempty)
    next
      case nf: False
      then have "string_of_nat n = string_of_nat (n div 10) @ [digit_char (n mod 10)]"
        by (subst string_of_nat.simps) simp
      with sm "1.prems" have e1: "string_of_nat (m div 10) = string_of_nat (n div 10)"
        and e2: "digit_char (m mod 10) = digit_char (n mod 10)" by simp_all
      from "1.IH" [OF False e1] have d: "m div 10 = n div 10" .
      from e2 have "m mod 10 = n mod 10" by (intro digit_char_inj) simp_all
      with d show ?thesis by (metis div_mult_mod_eq)
    qed
  qed
qed

lemma policy_key_inj: "policy_key i = policy_key j \<longleftrightarrow> i = j"
  by (auto simp: policy_key_def dest: string_of_nat_inj)

lemma assign_fresh: "k \<notin> fst ` set m \<Longrightarrow> assign k v m = m @ [(k, v)]"
  by (induction m) auto

lemma fill_from:
  "idx \<le> length fr \<Longrightarrow> fst ` set m \<subseteq> policy_key ` {..<idx} \<Longrightarrow>
   fill fr idx m = m @ zip (map policy_key [idx..<length fr]) (drop idx fr)"
proof (induction fr idx m rule: fill.induct)
  case (1 fr idx m)
  show ?case
  proof (cases "idx < length fr")
    case True
    have fresh: "policy_key idx \<notin> fst ` set m"
      using "1.prems"(2) by (auto simp: policy_key_inj)
    let ?m' = "m @ [(policy_key idx, fr ! idx)]"
    have a: "assign (policy_key idx) (fr ! idx) m = ?m'" using fresh by (rule assign_fresh)
    have sub: "fst ` set ?m' \<subseteq> policy_key ` {..<idx + 1}"
      using "1.prems"(2) by auto
    have "fill fr idx m = fill fr (idx + 1) ?m'"
      using True a by (subst fill.simps) simp
    also have "\<dots> = ?m' @ zip (map policy_key [idx + 1..<length fr]) (drop (idx + 1) fr)"
      using "1.IH" [OF True] True sub a by simp
    also have "\<dots> = m @ zip (map policy_key [idx..<length fr]) (drop idx fr)"
      using True by (simp add: upt_conv_Cons Cons_nth_drop_Suc [symmetric])
    finally show ?thesis .
  next
    case False
    with "1.prems" show ?thesis by (subst fill.simps) simp
  qed
qed

lemma fill_zip: "fill fr 0 [] = zip (map policy_key [0..<length fr]) fr"
  using fill_from [of 0 fr "[]"] by simp

subsection \<open>Single iterations\<close>

lemma chars_distinct [simp]:
  "slash \<noteq> semicolon" "semicolon \<noteq> slash" "slash \<noteq> dquote" "dquote \<noteq> slash"
  "semicolon \<noteq> dquote" "dquote \<noteq> semicolon" "slash \<noteq> star" "star \<noteq> slash"
  "newline \<noteq> semicolon" "semicolon \<noteq> newline" "backslash \<noteq> slash" "slash \<noteq> backslash"
  "backslash \<noteq> dquote" "dquote \<noteq> backslash" "backslash \<noteq> semicolon" "semicolon \<noteq> backslash"
  "semicolon \<noteq> star" "star \<noteq> semicolon"
  by (simp_all add: slash_def semicolon_def dquote_def star_def newline_def backslash_def)

lemma ws_not_special [simp]:
  "\<not> is_ws semicolon" "\<not> is_ws slash" "\<not> is_ws dquote" "\<not> is_ws star" "\<not> is_ws backslash"
  "is_ws newline"
  by (simp_all add: is_ws_def slash_def semicolon_def dquote_def star_def newline_def backslash_def)

lemma step_skip_iff:
  "snd (step st ch nxt) \<longleftrightarrow>
     structural st \<and> ch = slash \<and> (nxt = Some slash \<or> nxt = Some star)"
  by (auto simp: step_def structural_def Let_def)

lemma scan_Cons_one:
  "\<not> snd (step st ch (lookahead rest)) \<Longrightarrow>
   scan st (ch # rest) = scan (fst (step st ch (lookahead rest))) rest"
  by (cases "step st ch (lookahead rest)") (simp add: scan.simps(2))

lemma scan_Cons_two:
  "snd (step st ch (lookahead rest)) \<Longrightarrow>
   scan st (ch # rest) = scan (fst (step st ch (lookahead rest))) (tl rest)"
  by (cases "step st ch (lookahead rest)") (simp add: scan.simps(2))

lemma scan_opener:
  "structural st \<Longrightarrow> n = slash \<or> n = star \<Longrightarrow>
   scan st (slash # n # rest) = scan (fst (step st slash (Some n))) rest"
  using scan_Cons_two [of st slash "n # rest"] by (simp add: step_skip_iff lookahead_def)

lemma step_flush:
  "structural st \<Longrightarrow>
   step st semicolon nxt =
     (st\<lparr>results := results st @ [trim (buf st @ [semicolon])], buf := [], prev := Some semicolon\<rparr>,
      False)"
proof -
  assume s: "structural st"
  have "trim (buf st @ [semicolon]) \<noteq> []"
    by (rule trim_last_nonws_props(1)) simp_all
  with s show ?thesis by (simp add: step_def structural_def Let_def)
qed

lemma step_plain:
  "\<not> inLineComment st \<Longrightarrow> \<not> inBlockComment st \<Longrightarrow> ch \<noteq> slash \<Longrightarrow> ch \<noteq> dquote \<Longrightarrow>
   ch \<noteq> semicolon \<Longrightarrow> step st ch nxt = (st\<lparr>buf := buf st @ [ch], prev := Some ch\<rparr>, False)"
  by (simp add: step_def Let_def)

lemma step_in_string:
  "inString st \<Longrightarrow> \<not> inLineComment st \<Longrightarrow> \<not> inBlockComment st \<Longrightarrow> ch \<noteq> dquote \<Longrightarrow>
   step st ch nxt = (st\<lparr>buf := buf st @ [ch], prev := Some ch\<rparr>, False)"
  by (simp add: step_def Let_def)

lemma step_line_comment:
  "inLineComment st \<Longrightarrow>
   step st ch nxt =
     (st\<lparr>buf := buf st @ [ch], inLineComment := (ch \<noteq> newline), prev := Some ch\<rparr>, False)"
  by (simp add: step_def)

lemma step_block_comment:
  "\<not> inLineComment st \<Longrightarrow> inBlockComment st \<Longrightarrow>
   step st ch nxt =
     (st\<lparr>buf := buf st @ [ch], inBlockComment := \<not> (prev st = Some star \<and> ch = slash),
         prev := Some ch\<rparr>, False)"
  by (simp add: step_def)

lemma scan_verbatim_gen:
  assumes "\<And>st ch nxt. Q st \<Longrightarrow> ch \<in> A \<Longrightarrow>
             step st ch nxt = (st\<lparr>buf := buf st @ [ch], prev := Some ch\<rparr>, False)"
    and "\<And>st b p. Q st \<Longrightarrow> Q (st\<lparr>buf := b, prev := p\<rparr>)"
  shows "Q st \<Longrightarrow> set cs \<subseteq> A \<Longrightarrow>
         scan st cs = st\<lparr>buf := buf st @ cs, prev := prev_after (prev st) cs\<rparr>"
proof (induction cs arbitrary: st)
  case Nil
  then show ?case by (simp add: prev_after_def)
next
  case (Cons c cs)
  have s: "step st c (lookahead cs) = (st\<lparr>buf := buf st @ [c], prev := Some c\<rparr>, False)"
    using assms(1) Cons.prems by simp
  have q: "Q (st\<lparr>buf := buf st @ [c], prev := Some c\<rparr>)" using assms(2) Cons.prems by simp
  have "scan st (c # cs) = scan (st\<lparr>buf := buf st @ [c], prev := Some c\<rparr>) cs"
    using scan_Cons_one [of st c cs] s by simp
  also have "\<dots> = st\<lparr>buf := buf st @ c # cs, prev := prev_after (prev st) (c # cs)\<rparr>"
    using Cons.IH [OF q] Cons.prems(2) by (simp add: prev_after_def)
  finally show ?case .
qed

lemma scan_plain:
  "\<not> inLineComment st \<Longrightarrow> \<not> inBlockComment st \<Longrightarrow> slash \<notin> set cs \<Longrightarrow> dquote \<notin> set cs \<Longrightarrow>
   semicolon \<notin> set cs \<Longrightarrow>
   scan st cs = st\<lparr>buf := buf st @ cs, prev := prev_after (prev st) cs\<rparr>"
  using scan_verbatim_gen [where Q = "\<lambda>st. \<not> inLineComment st \<and> \<not> inBlockComment st"
      and A = "- {slash, dquote, semicolon}" and st = st and cs = cs]
  by (auto simp: step_plain)

lemma scan_in_string:
  "inString st \<Longrightarrow> \<not> inLineComment st \<Longrightarrow> \<not> inBlockComment st \<Longrightarrow> dquote \<notin> set cs \<Longrightarrow>
   scan st cs = st\<lparr>buf := buf st @ cs, prev := prev_after (prev st) cs\<rparr>"
  using scan_verbatim_gen [where Q = "\<lambda>st. inString st \<and> \<not> inLineComment st \<and> \<not> inBlockComment st"
      and A = "- {dquote}" and st = st and cs = cs]
  by (auto simp: step_in_string)

lemma scan_line_comment:
  "inLineComment st \<Longrightarrow> newline \<notin> set cs \<Longrightarrow>
   scan st cs = st\<lparr>buf := buf st @ cs, prev := prev_after (prev st) cs\<rparr>"
  using scan_verbatim_gen [where Q = "inLineComment" and A = "- {newline}" and st = st and cs = cs]
  by (auto simp: step_line_comment)

lemma scan_block_comment:
  "\<not> inLineComment st \<Longrightarrow> inBlockComment st \<Longrightarrow> slash \<notin> set cs \<Longrightarrow>
   scan st cs = st\<lparr>buf := buf st @ cs, prev := prev_after (prev st) cs\<rparr>"
  using scan_verbatim_gen [where Q = "\<lambda>st. \<not> inLineComment st \<and> inBlockComment st"
      and A = "- {slash}" and st = st and cs = cs]
  by (auto simp: step_block_comment)

lemma scan_ws:
  "structural st \<Longrightarrow> \<forall>c\<in>set w. is_ws c \<Longrightarrow>
   scan st w = st\<lparr>buf := buf st @ w, prev := prev_after (prev st) w\<rparr>"
  by (rule scan_plain) (auto simp: structural_def)

subsection \<open>Induction along the loop\<close>

lemma scan_induct [case_names Nil One Two]:
  assumes nil: "\<And>st. P st []"
    and one: "\<And>st ch rest. \<not> snd (step st ch (lookahead rest)) \<Longrightarrow>
                P (fst (step st ch (lookahead rest))) rest \<Longrightarrow> P st (ch # rest)"
    and two: "\<And>st n rest. structural st \<Longrightarrow> n = slash \<or> n = star \<Longrightarrow>
                P (fst (step st slash (Some n))) rest \<Longrightarrow> P st (slash # n # rest)"
  shows "P st cs"
proof (induction st cs rule: scan.induct)
  case (1 st)
  show ?case by (rule nil)
next
  case (2 st ch rest)
  show ?case
  proof (cases "snd (step st ch (lookahead rest))")
    case False
    have "P (fst (step st ch (lookahead rest))) (if False then tl rest else rest)"
      using False by (intro "2.IH") (auto simp: prod_eq_iff)
    then show ?thesis using False by (intro one) simp_all
  next
    case True
    then have s: "structural st" and c: "ch = slash"
      and n: "lookahead rest = Some slash \<or> lookahead rest = Some star"
      by (simp_all add: step_skip_iff)
    from n obtain n' rest' where r: "rest = n' # rest'" and n': "n' = slash \<or> n' = star"
      by (cases rest) (auto simp: lookahead_def)
    have "P (fst (step st ch (lookahead rest))) (if True then tl rest else rest)"
      using True by (intro "2.IH") (auto simp: prod_eq_iff)
    then have "P (fst (step st slash (Some n'))) rest'"
      using r c by (simp add: lookahead_def)
    with s n' show ?thesis unfolding r c by (intro two)
  qed
qed

lemma step_open:
  "structural st \<Longrightarrow>
   step st slash (Some slash) =
     (st\<lparr>inLineComment := True, buf := buf st @ [slash, slash], prev := Some slash\<rparr>, True)"
  "structural st \<Longrightarrow>
   step st slash (Some star) =
     (st\<lparr>inBlockComment := True, buf := buf st @ [slash, star], prev := Some star\<rparr>, True)"
  by (simp_all add: step_def structural_def)

lemma step_noflush:
  "\<not> (structural st \<and> ch = semicolon) \<Longrightarrow>
   results (fst (step st ch nxt)) = results st \<and>
   buf (fst (step st ch nxt)) = buf st @ ch # (if snd (step st ch nxt) then [the nxt] else [])"
  by (auto simp: step_def structural_def Let_def)

lemma step_prev:
  "prev (fst (step st ch nxt)) = (if snd (step st ch nxt) then nxt else Some ch)"
  by (auto simp: step_def Let_def)

lemma step_next_irrelevant: "ch \<noteq> slash \<Longrightarrow> step st ch n = step st ch n'"
  by (simp add: step_def)

lemma lookahead_append: "rest \<noteq> [] \<Longrightarrow> lookahead (rest @ ds) = lookahead rest"
  by (cases rest) (simp_all add: lookahead_def)

lemma scan_append:
  "cs = [] \<or> last cs \<noteq> slash \<Longrightarrow> scan st (cs @ ds) = scan (scan st cs) ds"
proof (induction st cs rule: scan_induct)
  case (Nil st)
  show ?case by simp
next
  case (One st ch rest)
  show ?case
  proof (cases "rest = []")
    case True
    with One.prems have "ch \<noteq> slash" by simp
    then have e: "step st ch (lookahead ds) = step st ch (lookahead [])"
      by (rule step_next_irrelevant)
    have "scan st (ch # ds) = scan (fst (step st ch (lookahead []))) ds"
      using One.hyps True e scan_Cons_one [of st ch ds] by simp
    moreover have "scan st [ch] = fst (step st ch (lookahead []))"
      using One.hyps True scan_Cons_one [of st ch "[]"] by simp
    ultimately show ?thesis using True by simp
  next
    case False
    then have l: "lookahead (rest @ ds) = lookahead rest" by (rule lookahead_append)
    have "scan st (ch # rest @ ds) = scan (fst (step st ch (lookahead rest))) (rest @ ds)"
      using One.hyps l scan_Cons_one [of st ch "rest @ ds"] by simp
    also have "\<dots> = scan (scan (fst (step st ch (lookahead rest))) rest) ds"
      using One.prems False by (intro One.IH) simp
    also have "\<dots> = scan (scan st (ch # rest)) ds"
      using One.hyps scan_Cons_one [of st ch rest] by simp
    finally show ?thesis by simp
  qed
next
  case (Two st n rest)
  have "scan st (slash # n # rest @ ds) = scan (fst (step st slash (Some n))) (rest @ ds)"
    using Two.hyps by (rule scan_opener)
  also have "\<dots> = scan (scan (fst (step st slash (Some n))) rest) ds"
    using Two.prems by (intro Two.IH) (auto split: if_splits)
  also have "\<dots> = scan (scan st (slash # n # rest)) ds"
    using Two.hyps by (simp add: scan_opener)
  finally show ?case by simp
qed

lemma scan_no_semicolon:
  "semicolon \<notin> set cs \<Longrightarrow> results (scan st cs) = results st \<and> buf (scan st cs) = buf st @ cs"
proof (induction st cs rule: scan_induct)
  case (Nil st)
  show ?case by simp
next
  case (One st ch rest)
  then have "ch \<noteq> semicolon" by auto
  then have "results (fst (step st ch (lookahead rest))) = results st"
    "buf (fst (step st ch (lookahead rest))) = buf st @ [ch]"
    using step_noflush [of st ch "lookahead rest"] One.hyps by simp_all
  then show ?case using One by (simp add: scan_Cons_one)
next
  case (Two st n rest)
  have "results (fst (step st slash (Some n))) = results st"
    "buf (fst (step st slash (Some n))) = buf st @ [slash, n]"
    using Two.hyps by (auto simp: step_open)
  then show ?case using Two by (simp add: scan_opener)
qed

lemma scan_results_mono: "\<exists>new. results (scan st cs) = results st @ new"
proof (induction st cs rule: scan_induct)
  case (Nil st)
  show ?case by simp
next
  case (One st ch rest)
  have "\<exists>new. results (fst (step st ch (lookahead rest))) = results st @ new"
  proof (cases "structural st \<and> ch = semicolon")
    case True
    then show ?thesis by (simp add: step_flush)
  next
    case False
    then show ?thesis using step_noflush [of st ch "lookahead rest"] by simp
  qed
  with One show ?case by (auto simp: scan_Cons_one)
next
  case (Two st n rest)
  have "results (fst (step st slash (Some n))) = results st"
    using Two.hyps by (auto simp: step_open)
  with Two show ?case by (simp add: scan_opener)
qed

lemma scan_results_origin:
  "t \<in> set (results (scan st cs)) \<Longrightarrow>
   t \<in> set (results st) \<or> (\<exists>b. t = trim (b @ [semicolon]))"
proof (induction st cs rule: scan_induct)
  case (Nil st)
  then show ?case by simp
next
  case (One st ch rest)
  let ?st1 = "fst (step st ch (lookahead rest))"
  from One have "t \<in> set (results ?st1) \<or> (\<exists>b. t = trim (b @ [semicolon]))"
    by (simp add: scan_Cons_one)
  moreover have "set (results ?st1) \<subseteq> set (results st) \<union> {trim (buf st @ [semicolon])}"
  proof (cases "structural st \<and> ch = semicolon")
    case True
    then show ?thesis by (simp add: step_flush)
  next
    case False
    then show ?thesis using step_noflush [of st ch "lookahead rest"] by auto
  qed
  ultimately show ?case by auto
next
  case (Two st n rest)
  have "results (fst (step st slash (Some n))) = results st"
    using Two.hyps by (auto simp: step_open)
  with Two show ?case by (simp add: scan_opener)
qed

lemma scan_last:
  "cs \<noteq> [] \<Longrightarrow>
   prev (scan st cs) = Some (last cs) \<and>
   ((buf (scan st cs) = [] \<and> structural (scan st cs) \<and> last cs = semicolon) \<or>
    (buf (scan st cs) \<noteq> [] \<and> last (buf (scan st cs)) = last cs))"
proof (induction st cs rule: scan_induct)
  case (Nil st)
  then show ?case by simp
next
  case (One st ch rest)
  show ?case
  proof (cases "rest = []")
    case True
    have e: "scan st [ch] = fst (step st ch (lookahead []))"
      using One.hyps True scan_Cons_one [of st ch "[]"] by simp
    have p: "prev (fst (step st ch (lookahead []))) = Some ch"
      using One.hyps True by (simp add: step_prev)
    show ?thesis
    proof (cases "structural st \<and> ch = semicolon")
      case t: True
      then show ?thesis using True e p by (simp add: step_flush structural_def)
    next
      case False
      then show ?thesis using True e p step_noflush [of st ch "lookahead []"] One.hyps by simp
    qed
  next
    case False
    with One show ?thesis by (simp add: scan_Cons_one)
  qed
next
  case (Two st n rest)
  show ?case
  proof (cases "rest = []")
    case True
    with Two.hyps show ?thesis by (auto simp: scan_opener step_open)
  next
    case False
    with Two show ?thesis by (simp add: scan_opener)
  qed
qed

subsection \<open>Success and failure of the whole function\<close>

lemma results_nonempty:
  "t \<in> set (results (scan init_state s)) \<Longrightarrow>
   t \<noteq> [] \<and> \<not> is_ws (hd t) \<and> last t = semicolon \<and> trim t = t"
proof -
  assume "t \<in> set (results (scan init_state s))"
  then obtain b where t: "t = trim (b @ [semicolon])"
    using scan_results_origin [of t init_state s] by (auto simp: init_state_def)
  have ne: "b @ [semicolon] \<noteq> []" and l: "\<not> is_ws (last (b @ [semicolon]))" by simp_all
  show ?thesis
    using trim_last_nonws_props [OF ne l] trim_idem_stmt [OF ne l] t by simp
qed

lemma filter_results: "filter (\<lambda>p. p \<noteq> []) (results (scan init_state s)) = results (scan init_state s)"
  using results_nonempty [of _ s] by (simp add: filter_id_conv)

lemma split_success:
  "splitCedarPolicies s = Inr m \<longleftrightarrow>
   (\<forall>c\<in>set (buf (scan init_state s)). is_ws c) \<and>
   m = zip (map policy_key [0..<length (results (scan init_state s))]) (results (scan init_state s))"
  by (auto simp: splitCedarPolicies_def Let_def filter_results fill_zip trim_eq_Nil_iff)

lemma split_failure:
  "splitCedarPolicies s = Inl e \<longleftrightarrow> (\<exists>c\<in>set (buf (scan init_state s)). \<not> is_ws c)"
  by (cases e) (auto simp: splitCedarPolicies_def Let_def trim_eq_Nil_iff)

subsection \<open>Segments: the text between two flushes\<close>

lemma structural_normal [simp]: "structural (normal r p)"
  by (simp add: structural_def normal_def)

lemma normal_sel [simp]:
  "results (normal r p) = r" "buf (normal r p) = []" "prev (normal r p) = p"
  "\<not> inBlockComment (normal r p)"
  by (simp_all add: normal_def)

lemma step_flush_normal:
  "structural st \<Longrightarrow>
   fst (step st semicolon nxt) = normal (results st @ [trim (buf st @ [semicolon])]) (Some semicolon)"
  by (simp add: step_flush structural_def normal_def)

lemma scan_first_flush:
  "(results (scan st cs) = results st \<and> buf (scan st cs) = buf st @ cs) \<or>
   (\<exists>x rest. cs = x @ rest \<and> x \<noteq> [] \<and> last x = semicolon \<and>
      scan st x = normal (results st @ [trim (buf st @ x)]) (Some semicolon))"
proof (induction st cs rule: scan_induct)
  case (Nil st)
  show ?case by simp
next
  case (One st ch rest)
  let ?st1 = "fst (step st ch (lookahead rest))"
  show ?case
  proof (cases "structural st \<and> ch = semicolon")
    case True
    have "scan st [ch] = fst (step st ch (lookahead []))"
      using scan_Cons_one [of st ch "[]"] True by (simp add: step_skip_iff)
    then have "scan st [ch] = normal (results st @ [trim (buf st @ [ch])]) (Some semicolon)"
      using True by (simp add: step_flush_normal)
    moreover have "ch # rest = [ch] @ rest" "[ch] \<noteq> []" "last [ch] = semicolon"
      using True by simp_all
    ultimately show ?thesis by blast
  next
    case False
    then have r1: "results ?st1 = results st" and b1: "buf ?st1 = buf st @ [ch]"
      using step_noflush [of st ch "lookahead rest"] One.hyps by simp_all
    from One.IH show ?thesis
    proof
      assume "results (scan ?st1 rest) = results ?st1 \<and> buf (scan ?st1 rest) = buf ?st1 @ rest"
      then show ?thesis using r1 b1 One.hyps by (simp add: scan_Cons_one)
    next
      assume "\<exists>x r. rest = x @ r \<and> x \<noteq> [] \<and> last x = semicolon \<and>
        scan ?st1 x = normal (results ?st1 @ [trim (buf ?st1 @ x)]) (Some semicolon)"
      then obtain x r where x: "rest = x @ r" "x \<noteq> []" "last x = semicolon"
        and sx: "scan ?st1 x = normal (results ?st1 @ [trim (buf ?st1 @ x)]) (Some semicolon)"
        by blast
      have l: "lookahead x = lookahead rest" using x by (simp add: lookahead_append)
      have "scan st (ch # x) = scan ?st1 x"
        using scan_Cons_one [of st ch x] One.hyps l by simp
      then have "scan st (ch # x) = normal (results st @ [trim (buf st @ ch # x)]) (Some semicolon)"
        using sx r1 b1 by simp
      moreover have "ch # rest = (ch # x) @ r" "ch # x \<noteq> []" "last (ch # x) = semicolon"
        using x by simp_all
      ultimately show ?thesis by blast
    qed
  qed
next
  case (Two st n rest)
  let ?st1 = "fst (step st slash (Some n))"
  have r1: "results ?st1 = results st" and b1: "buf ?st1 = buf st @ [slash, n]"
    using Two.hyps by (auto simp: step_open)
  from Two.IH show ?case
  proof
    assume "results (scan ?st1 rest) = results ?st1 \<and> buf (scan ?st1 rest) = buf ?st1 @ rest"
    then show ?thesis using r1 b1 Two.hyps by (simp add: scan_opener)
  next
    assume "\<exists>x r. rest = x @ r \<and> x \<noteq> [] \<and> last x = semicolon \<and>
      scan ?st1 x = normal (results ?st1 @ [trim (buf ?st1 @ x)]) (Some semicolon)"
    then obtain x r where x: "rest = x @ r" "x \<noteq> []" "last x = semicolon"
      and sx: "scan ?st1 x = normal (results ?st1 @ [trim (buf ?st1 @ x)]) (Some semicolon)"
      by blast
    have "scan st (slash # n # x) = scan ?st1 x"
      using Two.hyps by (rule scan_opener)
    then have "scan st (slash # n # x) =
      normal (results st @ [trim (buf st @ slash # n # x)]) (Some semicolon)"
      using sx r1 b1 by simp
    moreover have "slash # n # rest = (slash # n # x) @ r" "slash # n # x \<noteq> []"
      "last (slash # n # x) = semicolon"
      using x by simp_all
    ultimately show ?thesis by blast
  qed
qed

subsection \<open>What the scan does not depend on\<close>

lemma step_prepend:
  "step (st\<lparr>results := r @ results st\<rparr>) ch nxt =
   (fst (step st ch nxt)\<lparr>results := r @ results (fst (step st ch nxt))\<rparr>, snd (step st ch nxt))"
  by (simp add: step_def Let_def)

lemma scan_prepend:
  "scan (st\<lparr>results := r @ results st\<rparr>) cs = (scan st cs)\<lparr>results := r @ results (scan st cs)\<rparr>"
proof (induction st cs rule: scan.induct)
  case (1 st)
  show ?case by simp
next
  case (2 st ch rest)
  obtain st1 k where s: "step st ch (lookahead rest) = (st1, k)" by (cases "step st ch (lookahead rest)")
  have "scan (st\<lparr>results := r @ results st\<rparr>) (ch # rest) =
        scan (st1\<lparr>results := r @ results st1\<rparr>) (if k then tl rest else rest)"
    by (simp add: scan.simps(2) step_prepend s)
  also have "\<dots> = (scan st1 (if k then tl rest else rest))
      \<lparr>results := r @ results (scan st1 (if k then tl rest else rest))\<rparr>"
    using "2.IH" [of st1 k] s by simp
  finally show ?case by (simp add: scan.simps(2) s)
qed

lemma step_prev_neutral:
  "\<not> inBlockComment st \<Longrightarrow> p \<noteq> Some backslash \<Longrightarrow> prev st \<noteq> Some backslash \<Longrightarrow>
   step (st\<lparr>prev := p\<rparr>) ch nxt = step st ch nxt"
  by (simp add: step_def Let_def)

lemma scan_prev_neutral:
  "\<not> inBlockComment st \<Longrightarrow> p \<noteq> Some backslash \<Longrightarrow> prev st \<noteq> Some backslash \<Longrightarrow> cs \<noteq> [] \<Longrightarrow>
   scan (st\<lparr>prev := p\<rparr>) cs = scan st cs"
  by (cases cs) (simp_all add: scan.simps(2) step_prev_neutral)

lemma step_padbuf:
  assumes "\<forall>c\<in>set w. is_ws c"
  shows "step (st\<lparr>buf := w @ buf st\<rparr>) ch nxt =
     (if structural st \<and> ch = semicolon then step st ch nxt
      else (fst (step st ch nxt)\<lparr>buf := w @ buf (fst (step st ch nxt))\<rparr>, snd (step st ch nxt)))"
proof (cases "structural st \<and> ch = semicolon")
  case True
  then have "structural (st\<lparr>buf := w @ buf st\<rparr>)" by (simp add: structural_def)
  then show ?thesis using True assms by (simp add: step_flush trim_ws_prefix)
next
  case False
  then show ?thesis by (auto simp: step_def Let_def structural_def)
qed

lemma scan_padbuf:
  assumes w: "\<forall>c\<in>set w. is_ws c"
  shows "scan (st\<lparr>buf := w @ buf st\<rparr>) cs =
     (if results (scan st cs) = results st then (scan st cs)\<lparr>buf := w @ buf (scan st cs)\<rparr>
      else scan st cs)"
proof (induction st cs rule: scan.induct)
  case (1 st)
  show ?case by simp
next
  case (2 st ch rest)
  obtain st1 k where s: "step st ch (lookahead rest) = (st1, k)" by (cases "step st ch (lookahead rest)")
  let ?rest = "if k then tl rest else rest"
  have e: "scan st (ch # rest) = scan st1 ?rest" by (simp add: scan.simps(2) s)
  obtain new where new: "results (scan st1 ?rest) = results st1 @ new"
    using scan_results_mono by blast
  show ?case
  proof (cases "structural st \<and> ch = semicolon")
    case True
    then have "results st1 = results st @ [trim (buf st @ [semicolon])]"
      using s step_flush [of st "lookahead rest"] by auto
    then have "results (scan st (ch # rest)) \<noteq> results st" using e new by simp
    moreover have "scan (st\<lparr>buf := w @ buf st\<rparr>) (ch # rest) = scan st1 ?rest"
      using True s by (simp add: scan.simps(2) step_padbuf [OF w])
    ultimately show ?thesis using e by simp
  next
    case False
    then have r1: "results st1 = results st"
      using step_noflush [of st ch "lookahead rest"] s by simp
    have "step (st\<lparr>buf := w @ buf st\<rparr>) ch (lookahead rest) = (st1\<lparr>buf := w @ buf st1\<rparr>, k)"
      unfolding step_padbuf [OF w] if_not_P [OF False] s by simp
    then have "scan (st\<lparr>buf := w @ buf st\<rparr>) (ch # rest) = scan (st1\<lparr>buf := w @ buf st1\<rparr>) ?rest"
      by (simp add: scan.simps(2))
    also have "\<dots> = (if results (scan st1 ?rest) = results st1
        then (scan st1 ?rest)\<lparr>buf := w @ buf (scan st1 ?rest)\<rparr> else scan st1 ?rest)"
      using "2.IH" [of st1 k] s by simp
    finally show ?thesis using e r1 by simp
  qed
qed


subsection \<open>Splitting the rejoined statements\<close>

lemma normal_prepend: "(normal new q)\<lparr>results := r @ results (normal new q)\<rparr> = normal (r @ new) q"
  by (simp add: normal_def)

lemma scan_prepend_normal:
  "scan (normal r p) cs =
   (scan (normal [] p) cs)\<lparr>results := r @ results (scan (normal [] p) cs)\<rparr>"
proof -
  have "normal r p = (normal [] p)\<lparr>results := r @ results (normal [] p)\<rparr>"
    by (simp add: normal_def)
  then show ?thesis by (simp only: scan_prepend)
qed

lemma scan_padbuf_normal:
  assumes "\<forall>c\<in>set w. is_ws c"
  shows "scan ((normal r q)\<lparr>buf := w\<rparr>) cs =
     (if results (scan (normal r q) cs) = r
      then (scan (normal r q) cs)\<lparr>buf := w @ buf (scan (normal r q) cs)\<rparr>
      else scan (normal r q) cs)"
  using scan_padbuf [OF assms, of "normal r q" cs] by simp

lemma scan_normal_prepend:
  "scan (normal [] p) cs = normal new q \<Longrightarrow> scan (normal r p) cs = normal (r @ new) q"
proof -
  assume a: "scan (normal [] p) cs = normal new q"
  have "normal r p = (normal [] p)\<lparr>results := r @ results (normal [] p)\<rparr>"
    by (simp add: normal_def)
  then have "scan (normal r p) cs =
    (scan (normal [] p) cs)\<lparr>results := r @ results (scan (normal [] p) cs)\<rparr>"
    by (simp only: scan_prepend)
  then show ?thesis unfolding a by (simp only: normal_prepend)
qed

lemma scan_normal_unprepend:
  assumes "scan (normal r p) cs = normal (r @ new) q"
  shows "scan (normal [] p) cs = normal new q"
proof -
  let ?X = "scan (normal [] p) cs"
  have "normal r p = (normal [] p)\<lparr>results := r @ results (normal [] p)\<rparr>"
    by (simp add: normal_def)
  then have "scan (normal r p) cs = ?X\<lparr>results := r @ results ?X\<rparr>"
    by (simp only: scan_prepend)
  with assms have e: "?X\<lparr>results := r @ results ?X\<rparr> = normal (r @ new) q" by simp
  have "results (?X\<lparr>results := r @ results ?X\<rparr>) = r @ new" unfolding e by simp
  then have 1: "results ?X = new" by simp
  have "buf (?X\<lparr>results := r @ results ?X\<rparr>) = []"
    "inString (?X\<lparr>results := r @ results ?X\<rparr>) = False"
    "inLineComment (?X\<lparr>results := r @ results ?X\<rparr>) = False"
    "inBlockComment (?X\<lparr>results := r @ results ?X\<rparr>) = False"
    "prev (?X\<lparr>results := r @ results ?X\<rparr>) = q"
    unfolding e by (simp_all add: normal_def)
  then have 2: "buf ?X = []" "inString ?X = False" "inLineComment ?X = False"
    "inBlockComment ?X = False" "prev ?X = q" by simp_all
  show ?thesis using 1 2 by (simp add: normal_def)
qed

lemma segment_rescan:
  assumes p: "p \<noteq> Some backslash" and p': "p' \<noteq> Some backslash"
    and x: "x \<noteq> []" "last x = semicolon"
    and sx: "scan (normal r p) x = normal (r @ [trim x]) (Some semicolon)"
  shows "scan (normal r' p') (trim x) = normal (r' @ [trim x]) (Some semicolon)"
proof -
  let ?w = "takeWhile is_ws x"
  let ?q = "prev_after p ?w"
  have nw: "\<not> is_ws (last x)" using x by simp
  have tx: "trim x = dropWhile is_ws x" using x(1) nw by (rule trim_last_nonws)
  have xd: "x = ?w @ trim x" unfolding tx by simp
  have txne: "trim x \<noteq> []" using x(1) nw by (rule trim_last_nonws_props)
  have ws: "\<forall>c\<in>set ?w. is_ws c" by (auto dest: set_takeWhileD)
  have "?w \<noteq> [] \<Longrightarrow> is_ws (last ?w)" using ws last_in_set by blast
  then have g: "?w = [] \<or> last ?w \<noteq> slash" by auto
  have q: "?q \<noteq> Some backslash"
    using p \<open>?w \<noteq> [] \<Longrightarrow> is_ws (last ?w)\<close> by (auto simp: prev_after_def)
  have "scan (normal r p) ?w = (normal r p)\<lparr>buf := buf (normal r p) @ ?w, prev := ?q\<rparr>"
    using scan_ws [OF structural_normal ws, of r p] by simp
  also have "\<dots> = (normal r ?q)\<lparr>buf := ?w\<rparr>"
    by (simp add: normal_def)
  finally have "scan (normal r p) (?w @ trim x) = scan ((normal r ?q)\<lparr>buf := ?w\<rparr>) (trim x)"
    using scan_append [OF g, of "normal r p" "trim x"] by simp
  with sx xd have padded: "scan ((normal r ?q)\<lparr>buf := ?w\<rparr>) (trim x) =
    normal (r @ [trim x]) (Some semicolon)"
    by simp
  have "results (scan (normal r ?q) (trim x)) \<noteq> results (normal r ?q)"
  proof
    assume "results (scan (normal r ?q) (trim x)) = results (normal r ?q)"
    then have "results (scan ((normal r ?q)\<lparr>buf := ?w\<rparr>) (trim x)) = r"
      by (simp add: scan_padbuf_normal [OF ws])
    then show False unfolding padded by simp
  qed
  then have "scan (normal r ?q) (trim x) = normal (r @ [trim x]) (Some semicolon)"
    using padded by (simp add: scan_padbuf_normal [OF ws])
  moreover have "normal r p' = (normal r ?q)\<lparr>prev := p'\<rparr>" by (simp add: normal_def)
  ultimately have "scan (normal r p') (trim x) = normal (r @ [trim x]) (Some semicolon)"
    using scan_prev_neutral [of "normal r ?q" p' "trim x"] p' q txne by simp
  then have "scan (normal [] p') (trim x) = normal [trim x] (Some semicolon)"
    by (rule scan_normal_unprepend)
  then show ?thesis by (rule scan_normal_prepend)
qed

lemma rescan_concat:
  "p \<noteq> Some backslash \<Longrightarrow> p' \<noteq> Some backslash \<Longrightarrow>
   scan (normal [] p') (concat (results (scan (normal [] p) cs))) =
     normal (results (scan (normal [] p) cs))
       (if results (scan (normal [] p) cs) = [] then p' else Some semicolon)"
proof (induction cs arbitrary: p p' rule: length_induct)
  case (1 cs)
  let ?R = "results (scan (normal [] p) cs)"
  from scan_first_flush [of "normal [] p" cs] show ?case
  proof
    assume "?R = results (normal [] p) \<and> buf (scan (normal [] p) cs) = buf (normal [] p) @ cs"
    then have "?R = []" by simp
    then show ?thesis by simp
  next
    assume "\<exists>x rest. cs = x @ rest \<and> x \<noteq> [] \<and> last x = semicolon \<and>
      scan (normal [] p) x =
        normal (results (normal [] p) @ [trim (buf (normal [] p) @ x)]) (Some semicolon)"
    then obtain x rest where cs: "cs = x @ rest" and x: "x \<noteq> []" "last x = semicolon"
      and sx: "scan (normal [] p) x = normal ([] @ [trim x]) (Some semicolon)"
      by auto
    let ?sc = "Some semicolon"
    let ?R' = "results (scan (normal [] ?sc) rest)"
    have sc: "?sc \<noteq> Some backslash" by simp
    have g: "x = [] \<or> last x \<noteq> slash" using x by simp
    have "scan (normal [] p) cs = scan (normal [trim x] ?sc) rest"
      unfolding cs using scan_append [OF g, of "normal [] p" rest] sx by simp
    then have R: "?R = trim x # ?R'" by (simp add: scan_prepend_normal [of "[trim x]"])
    have "length rest < length cs" using cs x by simp
    then have ih: "scan (normal [] ?sc) (concat ?R') = normal ?R' ?sc"
      using "1.IH" sc by (auto split: if_splits)
    have tl: "trim x = [] \<or> last (trim x) \<noteq> slash"
      using trim_last_nonws_props(2) [of x] x by simp
    have "scan (normal [] p') (trim x) = normal ([] @ [trim x]) ?sc"
      using "1.prems" x sx by (rule segment_rescan)
    then have "scan (normal [] p') (trim x @ concat ?R') = scan (normal [trim x] ?sc) (concat ?R')"
      using scan_append [OF tl, of "normal [] p'" "concat ?R'"] by simp
    also have "\<dots> = normal ([trim x] @ ?R') ?sc"
      using ih by (rule scan_normal_prepend)
    finally show ?thesis unfolding R by simp
  qed
qed

subsection \<open>Documents made of blanks and comments\<close>

lemma scan_line_rest:
  "inLineComment st \<Longrightarrow> \<not> inString st \<Longrightarrow> \<not> inBlockComment st \<Longrightarrow>
   \<exists>st'. scan st cs = scan st' (line_rest cs) \<and> results st' = results st \<and>
         buf st' @ line_rest cs = buf st @ cs \<and> (structural st' \<or> line_rest cs = [])"
proof (induction cs arbitrary: st)
  case Nil
  show ?case by (intro exI [of _ st]) simp
next
  case (Cons c cs)
  let ?st1 = "st\<lparr>buf := buf st @ [c], inLineComment := (c \<noteq> newline), prev := Some c\<rparr>"
  have e: "scan st (c # cs) = scan ?st1 cs"
    using scan_Cons_one [of st c cs] Cons.prems(1) by (simp add: step_line_comment)
  show ?case
  proof (cases "c = newline")
    case True
    then have "structural ?st1" using Cons.prems by (simp add: structural_def)
    then show ?thesis using e True by (intro exI [of _ ?st1]) simp
  next
    case False
    then have "inLineComment ?st1" "\<not> inString ?st1" "\<not> inBlockComment ?st1"
      using Cons.prems by simp_all
    from Cons.IH [OF this] obtain st' where
      "scan ?st1 cs = scan st' (line_rest cs)" "results st' = results ?st1"
      "buf st' @ line_rest cs = buf ?st1 @ cs" "structural st' \<or> line_rest cs = []"
      by blast
    then show ?thesis using e False by (intro exI [of _ st']) simp
  qed
qed

lemma scan_block_rest:
  "inBlockComment st \<Longrightarrow> \<not> inString st \<Longrightarrow> \<not> inLineComment st \<Longrightarrow> prev st = Some p \<Longrightarrow>
   \<exists>st'. scan st cs = scan st' (block_rest p cs) \<and> results st' = results st \<and>
         buf st' @ block_rest p cs = buf st @ cs \<and> (structural st' \<or> block_rest p cs = [])"
proof (induction cs arbitrary: st p)
  case Nil
  show ?case by (intro exI [of _ st]) simp
next
  case (Cons c cs)
  let ?st1 = "st\<lparr>buf := buf st @ [c], inBlockComment := \<not> (prev st = Some star \<and> c = slash),
    prev := Some c\<rparr>"
  have e: "scan st (c # cs) = scan ?st1 cs"
    using scan_Cons_one [of st c cs] Cons.prems by (simp add: step_block_comment)
  show ?case
  proof (cases "p = star \<and> c = slash")
    case True
    then have "structural ?st1" using Cons.prems by (simp add: structural_def)
    then show ?thesis using e True by (intro exI [of _ ?st1]) simp
  next
    case False
    then have "inBlockComment ?st1" "\<not> inString ?st1" "\<not> inLineComment ?st1" "prev ?st1 = Some c"
      using Cons.prems by auto
    from Cons.IH [OF this] obtain st' where
      "scan ?st1 cs = scan st' (block_rest c cs)" "results st' = results ?st1"
      "buf st' @ block_rest c cs = buf ?st1 @ cs" "structural st' \<or> block_rest c cs = []"
      by blast
    then show ?thesis using e False by (intro exI [of _ st']) auto
  qed
qed

lemma comment_only_verbatim:
  "comment_only cs \<Longrightarrow> structural st \<or> cs = [] \<Longrightarrow>
   results (scan st cs) = results st \<and> buf (scan st cs) = buf st @ cs"
proof (induction cs arbitrary: st rule: comment_only.induct)
  case 1
  show ?case by simp
next
  case (2 c)
  then have "structural st" "\<forall>x\<in>set [c]. is_ws x" by simp_all
  then show ?case by (simp add: scan_ws)
next
  case (3 c d ds)
  from "3.prems" have s: "structural st" by simp
  show ?case
  proof (cases "is_ws c")
    case True
    let ?st1 = "st\<lparr>buf := buf st @ [c], prev := Some c\<rparr>"
    have "c \<noteq> slash" "c \<noteq> dquote" "c \<noteq> semicolon" using True by auto
    then have "step st c n = (?st1, False)" for n
      using s by (simp add: step_plain structural_def)
    then have e: "scan st (c # d # ds) = scan ?st1 (d # ds)"
      using scan_Cons_one [of st c "d # ds"] by simp
    have "structural ?st1" using s by (simp add: structural_def)
    moreover have "comment_only (d # ds)" using "3.prems"(1) True by simp
    ultimately have "results (scan ?st1 (d # ds)) = results ?st1 \<and>
      buf (scan ?st1 (d # ds)) = buf ?st1 @ d # ds"
      using "3.IH"(1) [OF True] by blast
    then show ?thesis using e by simp
  next
    case False
    show ?thesis
    proof (cases "c = slash \<and> d = slash")
      case True
      let ?st1 = "st\<lparr>inLineComment := True, buf := buf st @ [slash, slash], prev := Some slash\<rparr>"
      have e: "scan st (c # d # ds) = scan ?st1 ds"
        using True s by (simp add: scan_opener step_open)
      have "inLineComment ?st1" "\<not> inString ?st1" "\<not> inBlockComment ?st1"
        using s by (simp_all add: structural_def)
      from scan_line_rest [OF this, of ds] obtain st' where
        st': "scan ?st1 ds = scan st' (line_rest ds)" "results st' = results ?st1"
        "buf st' @ line_rest ds = buf ?st1 @ ds" "structural st' \<or> line_rest ds = []"
        by blast
      have "comment_only (line_rest ds)" using "3.prems"(1) False True by simp
      then have "results (scan st' (line_rest ds)) = results st' \<and>
        buf (scan st' (line_rest ds)) = buf st' @ line_rest ds"
        using "3.IH"(2) [OF False True] st'(4) by blast
      then show ?thesis using e st' True by simp
    next
      case nl: False
      then have b: "c = slash \<and> d = star" using "3.prems"(1) False by (simp split: if_splits)
      let ?st1 = "st\<lparr>inBlockComment := True, buf := buf st @ [slash, star], prev := Some star\<rparr>"
      have e: "scan st (c # d # ds) = scan ?st1 ds"
        using b s by (simp add: scan_opener step_open)
      have "inBlockComment ?st1" "\<not> inString ?st1" "\<not> inLineComment ?st1" "prev ?st1 = Some star"
        using s by (simp_all add: structural_def)
      from scan_block_rest [OF this, of ds] obtain st' where
        st': "scan ?st1 ds = scan st' (block_rest star ds)" "results st' = results ?st1"
        "buf st' @ block_rest star ds = buf ?st1 @ ds" "structural st' \<or> block_rest star ds = []"
        by blast
      have "comment_only (block_rest star ds)" using "3.prems"(1) False nl b by simp
      then have "results (scan st' (block_rest star ds)) = results st' \<and>
        buf (scan st' (block_rest star ds)) = buf st' @ block_rest star ds"
        using "3.IH"(3) [OF False nl b] st'(4) by blast
      then show ?thesis using e st' b by simp
    qed
  qed
qed

subsection \<open>String literals\<close>



section \<open>The claims\<close>

text \<open>
  C1 as written fails. A document that holds nothing but a line comment, or nothing but a
  closed block comment, does not yield the empty mapping: the comment text is still in the
  pending buffer when the scan ends, and the function fails with the trailing-content error.
\<close>

theorem comment_only_counterexample:
  "splitCedarPolicies ''// only a comment'' = Inl TrailingContentError \<and>
   splitCedarPolicies ''/* only a comment */'' = Inl TrailingContentError"
  by code_simp

text \<open>
  C1, as amended. Empty and white-space-only documents succeed with the empty mapping. Any
  other document made of blanks and comments only, that is, one that holds at least one
  comment, fails with the trailing-content error: comment text is appended to the pending
  buffer like any other text, terminators in it included, and is still there when the scan
  ends. Comments are as the scanner delimits them (\<open>comment_only\<close>).
\<close>

theorem blank_input_empty_mapping:
  "((\<forall>c\<in>set s. is_ws c) \<longrightarrow> splitCedarPolicies s = Inr []) \<and>
   (comment_only d \<and> (\<exists>c\<in>set d. \<not> is_ws c) \<longrightarrow> splitCedarPolicies d = Inl TrailingContentError)"
proof (intro conjI impI)
  assume ws: "\<forall>c\<in>set s. is_ws c"
  have "structural init_state" by (simp add: structural_def init_state_def)
  then have "scan init_state s = init_state\<lparr>buf := buf init_state @ s,
      prev := prev_after (prev init_state) s\<rparr>"
    using ws by (rule scan_ws)
  then have "buf (scan init_state s) = s" "results (scan init_state s) = []"
    by (simp_all add: init_state_def)
  with ws show "splitCedarPolicies s = Inr []" by (simp add: split_success)
next
  assume a: "comment_only d \<and> (\<exists>c\<in>set d. \<not> is_ws c)"
  have "structural init_state" by (simp add: structural_def init_state_def)
  then have "buf (scan init_state d) = buf init_state @ d"
    using comment_only_verbatim [of d init_state] a by blast
  then have "buf (scan init_state d) = d" by (simp add: init_state_def)
  with a show "splitCedarPolicies d = Inl TrailingContentError"
    by (simp add: split_failure)
qed

theorem blank_input_empty_mapping_witness:
  "list_all is_ws [CHR '' '', newline, CHR 0x09] \<and>
   splitCedarPolicies [CHR '' '', newline, CHR 0x09] = Inr [] \<and>
   comment_only (''  // a ; b'' @ [newline] @ '' /* c/d; */ /*/ '') \<and>
   (\<exists>c\<in>set (''  // a ; b'' @ [newline] @ '' /* c/d; */ /*/ ''). \<not> is_ws c) \<and>
   splitCedarPolicies (''  // a ; b'' @ [newline] @ '' /* c/d; */ /*/ '')
     = Inl TrailingContentError"
proof -
  let ?w = "[CHR '' '', newline, CHR 0x09]"
  let ?d = "''  // a ; b'' @ [newline] @ '' /* c/d; */ /*/ ''"
  have h1: "\<forall>c\<in>set ?w. is_ws c" by (simp add: is_ws_def newline_def)
  have h2: "comment_only ?d" by code_simp
  have "slash \<in> set ?d" by (simp add: slash_def)
  then have h3: "\<exists>c\<in>set ?d. \<not> is_ws c" using ws_not_special(2) by blast
  from blank_input_empty_mapping [of ?w ?d] h1 h2 h3
  show ?thesis unfolding list_all_iff by blast
qed

text \<open>
  C2. The code does not discard the segment of a second, consecutive terminator. The
  terminator is appended to the pending buffer before the buffer is trimmed, so the trimmed
  segment is \<open>;\<close>, never empty, and the emptiness guard at a terminator never applies: for
  \<open>permit(principal, action, resource);;\<close> the result has two entries, the second being
  \<open>;\<close> under \<open>policy_1\<close>. In general a document that splits into \<open>m\<close> and ends in a
  terminator splits, with one more terminator appended, into \<open>m\<close> followed by the entry
  \<open>;\<close> under the key \<open>policy_(length m)\<close>.
\<close>

theorem lone_terminator_is_kept:
  "splitCedarPolicies ''permit(principal, action, resource);;'' =
     Inr [(''policy_0'', ''permit(principal, action, resource);''), (''policy_1'', '';'')] \<and>
   (splitCedarPolicies s = Inr m \<and> s \<noteq> [] \<and> last s = semicolon \<longrightarrow>
      splitCedarPolicies (s @ '';'') = Inr (m @ [(policy_key (length m), '';'')]))"
proof (intro conjI impI)
  show "splitCedarPolicies ''permit(principal, action, resource);;'' =
     Inr [(''policy_0'', ''permit(principal, action, resource);''), (''policy_1'', '';'')]"
    by code_simp
next
  assume a: "splitCedarPolicies s = Inr m \<and> s \<noteq> [] \<and> last s = semicolon"
  let ?fin = "scan init_state s"
  let ?R = "results ?fin"
  from a have ws: "\<forall>c\<in>set (buf ?fin). is_ws c"
    and m: "m = zip (map policy_key [0..<length ?R]) ?R"
    by (simp_all add: split_success)
  have "buf ?fin = [] \<and> structural ?fin"
  proof (rule ccontr)
    assume "\<not> (buf ?fin = [] \<and> structural ?fin)"
    then have "buf ?fin \<noteq> [] \<and> last (buf ?fin) = semicolon"
      using scan_last [of s init_state] a by auto
    then have "semicolon \<in> set (buf ?fin)" by (metis last_in_set)
    with ws show False using ws_not_special(1) by blast
  qed
  then have b: "buf ?fin = []" and st: "structural ?fin" by simp_all
  have "scan init_state (s @ [semicolon]) = scan ?fin [semicolon]"
    using a by (intro scan_append) simp
  also have "\<dots> = fst (step ?fin semicolon (lookahead []))"
    using scan_Cons_one [of ?fin semicolon "[]"] by (simp add: step_skip_iff)
  also have "\<dots> = ?fin\<lparr>results := ?R @ [trim [semicolon]], buf := [], prev := Some semicolon\<rparr>"
    using st b by (simp add: step_flush)
  finally have e: "scan init_state (s @ [semicolon]) =
    ?fin\<lparr>results := ?R @ [[semicolon]], buf := [], prev := Some semicolon\<rparr>"
    by (simp add: trim_last_nonws)
  have "splitCedarPolicies (s @ [semicolon]) =
    Inr (zip (map policy_key [0..<length (?R @ [[semicolon]])]) (?R @ [[semicolon]]))"
    unfolding split_success e by simp
  also have "zip (map policy_key [0..<length (?R @ [[semicolon]])]) (?R @ [[semicolon]]) =
    m @ [(policy_key (length m), [semicolon])]"
    unfolding m by simp
  finally show "splitCedarPolicies (s @ '';'') = Inr (m @ [(policy_key (length m), '';'')])"
    by (simp add: semicolon_def)
qed

theorem lone_terminator_is_kept_witness:
  "splitCedarPolicies ''permit(a);'' = Inr [(''policy_0'', ''permit(a);'')] \<and>
   ''permit(a);'' \<noteq> [] \<and> last ''permit(a);'' = semicolon \<and>
   splitCedarPolicies (''permit(a);'' @ '';'')
     = Inr ([(''policy_0'', ''permit(a);'')] @
            [(policy_key (length [(''policy_0'', ''permit(a);'')]), '';'')])"
proof -
  have h: "splitCedarPolicies ''permit(a);'' = Inr [(''policy_0'', ''permit(a);'')] \<and>
   ''permit(a);'' \<noteq> [] \<and> last ''permit(a);'' = semicolon"
    by code_simp
  from lone_terminator_is_kept [of "''permit(a);''" "[(''policy_0'', ''permit(a);'')]"]
  have "splitCedarPolicies ''permit(a);'' = Inr [(''policy_0'', ''permit(a);'')] \<and>
      ''permit(a);'' \<noteq> [] \<and> last ''permit(a);'' = semicolon \<longrightarrow>
    splitCedarPolicies (''permit(a);'' @ '';'')
     = Inr ([(''policy_0'', ''permit(a);'')] @
            [(policy_key (length [(''policy_0'', ''permit(a);'')]), '';'')])"
    by (rule conjunct2)
  then have "splitCedarPolicies (''permit(a);'' @ '';'')
     = Inr ([(''policy_0'', ''permit(a);'')] @
            [(policy_key (length [(''policy_0'', ''permit(a);'')]), '';'')])"
    using h by (rule mp)
  with h show ?thesis by (simp only: conj_assoc simp_thms)
qed

text \<open>
  C3. When the pending buffer holds a character that is not white space after the scan, the
  function fails with the single error kind, and the result then carries no mapping at all
  (\<open>Inl\<close> has no statements in it). This covers every document whose last structural
  terminator (if any) is followed by terminator-free text that is not blank, and the
  terminator-free document \<open>permit(principal, action, resource)\<close>.
\<close>

theorem trailing_content_fails:
  "((\<exists>c\<in>set (buf (scan init_state s)). \<not> is_ws c) \<longrightarrow>
      splitCedarPolicies s = Inl TrailingContentError) \<and>
   (buf (scan init_state s1) = [] \<and> semicolon \<notin> set t \<and> (\<exists>c\<in>set t. \<not> is_ws c) \<longrightarrow>
      splitCedarPolicies (s1 @ t) = Inl TrailingContentError) \<and>
   splitCedarPolicies ''permit(principal, action, resource)'' = Inl TrailingContentError"
proof (intro conjI impI)
  assume "\<exists>c\<in>set (buf (scan init_state s)). \<not> is_ws c"
  then show "splitCedarPolicies s = Inl TrailingContentError" by (simp add: split_failure)
next
  assume a: "buf (scan init_state s1) = [] \<and> semicolon \<notin> set t \<and> (\<exists>c\<in>set t. \<not> is_ws c)"
  have "s1 = [] \<or> last s1 \<noteq> slash"
    using a scan_last [of s1 init_state] by (cases "s1 = []") auto
  then have "scan init_state (s1 @ t) = scan (scan init_state s1) t" by (rule scan_append)
  then have "buf (scan init_state (s1 @ t)) = t"
    using a scan_no_semicolon [of t "scan init_state s1"] by simp
  with a show "splitCedarPolicies (s1 @ t) = Inl TrailingContentError"
    by (simp add: split_failure)
next
  show "splitCedarPolicies ''permit(principal, action, resource)'' = Inl TrailingContentError"
    by code_simp
qed

theorem trailing_content_fails_witness:
  "(\<exists>c\<in>set (buf (scan init_state ''forbid(a)'')). \<not> is_ws c) \<and>
   splitCedarPolicies ''forbid(a)'' = Inl TrailingContentError \<and>
   buf (scan init_state ''permit(p);'') = [] \<and> semicolon \<notin> set '' forbid(a)'' \<and>
   (\<exists>c\<in>set '' forbid(a)''. \<not> is_ws c) \<and>
   splitCedarPolicies (''permit(p);'' @ '' forbid(a)'') = Inl TrailingContentError"
proof -
  have b1: "buf (scan init_state ''forbid(a)'') = ''forbid(a)''" by code_simp
  have h1: "\<exists>c\<in>set (buf (scan init_state ''forbid(a)'')). \<not> is_ws c"
    unfolding b1 by (simp add: is_ws_def)
  have h2: "buf (scan init_state ''permit(p);'') = []" by code_simp
  have h3: "semicolon \<notin> set '' forbid(a)''" by (simp add: semicolon_def)
  have h4: "\<exists>c\<in>set '' forbid(a)''. \<not> is_ws c" by (simp add: is_ws_def)
  from trailing_content_fails [of "''forbid(a)''" "''permit(p);''" "'' forbid(a)''"] h1 h2 h3 h4
  show ?thesis by blast
qed




text \<open>
  C5. In a line comment an iteration does one thing besides appending the character and
  recording it as lookback: it leaves the comment when the character is a newline. In a
  block comment it leaves the comment when the lookback is \<open>*\<close> and the character is
  \<open>/\<close>. Nothing else in the state changes, so a terminator neither emits a statement nor
  resets the buffer and a double quote does not toggle the string flag. Over a run of
  characters without a newline (line comment) or without a \<open>/\<close> (block comment) the
  scanner stays in the comment and the run is appended to the buffer verbatim.
\<close>

theorem comment_suspends_other_rules:
  "(inLineComment st \<longrightarrow>
      step st ch nxt =
        (st\<lparr>buf := buf st @ [ch], inLineComment := (ch \<noteq> newline), prev := Some ch\<rparr>, False)) \<and>
   (\<not> inLineComment st \<and> inBlockComment st \<longrightarrow>
      step st ch nxt =
        (st\<lparr>buf := buf st @ [ch], inBlockComment := \<not> (prev st = Some star \<and> ch = slash),
            prev := Some ch\<rparr>, False)) \<and>
   (inLineComment st \<and> newline \<notin> set cs \<longrightarrow>
      scan st cs = st\<lparr>buf := buf st @ cs, prev := prev_after (prev st) cs\<rparr>) \<and>
   (\<not> inLineComment st \<and> inBlockComment st \<and> slash \<notin> set cs \<longrightarrow>
      scan st cs = st\<lparr>buf := buf st @ cs, prev := prev_after (prev st) cs\<rparr>)"
  by (simp add: step_line_comment step_block_comment scan_line_comment scan_block_comment)

theorem comment_suspends_other_rules_witness:
  \<open>inLineComment (init_state\<lparr>inLineComment := True\<rparr>) \<and> newline \<notin> set ''a;"b'' \<and>
   step (init_state\<lparr>inLineComment := True\<rparr>) semicolon None =
     (init_state\<lparr>inLineComment := True, buf := '';'', prev := Some semicolon\<rparr>, False) \<and>
   scan (init_state\<lparr>inLineComment := True\<rparr>) ''a;"b'' =
     init_state\<lparr>inLineComment := True, buf := ''a;"b'', prev := Some CHR ''b''\<rparr> \<and>
   \<not> inLineComment (init_state\<lparr>inBlockComment := True\<rparr>) \<and>
   inBlockComment (init_state\<lparr>inBlockComment := True\<rparr>) \<and> slash \<notin> set ''a;"b'' \<and>
   step (init_state\<lparr>inBlockComment := True\<rparr>) dquote None =
     (init_state\<lparr>inBlockComment := True, buf := [dquote], prev := Some dquote\<rparr>, False) \<and>
   scan (init_state\<lparr>inBlockComment := True\<rparr>) ''a;"b'' =
     init_state\<lparr>inBlockComment := True, buf := ''a;"b'', prev := Some CHR ''b''\<rparr>\<close>
  using comment_suspends_other_rules [of "init_state\<lparr>inLineComment := True\<rparr>" semicolon None
      \<open>''a;"b''\<close>]
    comment_suspends_other_rules [of "init_state\<lparr>inBlockComment := True\<rparr>" dquote None
      \<open>''a;"b''\<close>]
  by (simp add: init_state_def prev_after_def newline_def slash_def semicolon_def dquote_def
      star_def)

text \<open>
  C6. On success every statement of the mapping is non-empty, starts and ends with a
  character that is not white space (so trimming it again changes nothing), and its last
  character is the terminator that closed it. The document
  \<open>permit(principal, action, resource);\<close> yields the single entry \<open>policy_0\<close>, the
  document trimmed.
\<close>

theorem statements_trimmed_and_terminated:
  "(splitCedarPolicies s = Inr m \<longrightarrow>
      (\<forall>(k, t)\<in>set m. t \<noteq> [] \<and> \<not> is_ws (hd t) \<and> \<not> is_ws (last t) \<and>
                         last t = semicolon \<and> trim t = t)) \<and>
   splitCedarPolicies ''permit(principal, action, resource);''
     = Inr [(''policy_0'', trim ''permit(principal, action, resource);'')] \<and>
   trim ''permit(principal, action, resource);'' = ''permit(principal, action, resource);''"
proof (intro conjI impI)
  assume "splitCedarPolicies s = Inr m"
  then have m: "m = zip (map policy_key [0..<length (results (scan init_state s))])
                        (results (scan init_state s))"
    by (simp add: split_success)
  show "\<forall>(k, t)\<in>set m. t \<noteq> [] \<and> \<not> is_ws (hd t) \<and> \<not> is_ws (last t) \<and>
                         last t = semicolon \<and> trim t = t"
  proof (clarify, intro conjI)
    fix k t
    assume "(k, t) \<in> set m"
    then have "t \<in> set (results (scan init_state s))"
      unfolding m by (rule set_zip_rightD)
    then have r: "t \<noteq> [] \<and> \<not> is_ws (hd t) \<and> last t = semicolon \<and> trim t = t"
      by (rule results_nonempty)
    from r show "t \<noteq> []" "\<not> is_ws (hd t)" "last t = semicolon" "trim t = t" by simp_all
    from r show "\<not> is_ws (last t)" by simp
  qed
next
  show "splitCedarPolicies ''permit(principal, action, resource);''
     = Inr [(''policy_0'', trim ''permit(principal, action, resource);'')]"
    by code_simp
next
  show "trim ''permit(principal, action, resource);'' = ''permit(principal, action, resource);''"
    by code_simp
qed

theorem statements_trimmed_and_terminated_witness:
  "splitCedarPolicies '' permit(a); forbid(b) ; '' =
     Inr [(''policy_0'', ''permit(a);''), (''policy_1'', ''forbid(b) ;'')] \<and>
   ''forbid(b) ;'' \<noteq> [] \<and> \<not> is_ws (hd ''forbid(b) ;'') \<and> \<not> is_ws (last ''forbid(b) ;'') \<and>
   last ''forbid(b) ;'' = semicolon \<and> trim ''forbid(b) ;'' = ''forbid(b) ;''"
proof -
  let ?m = "[(''policy_0'', ''permit(a);''), (''policy_1'', ''forbid(b) ;'')]"
  have h: "splitCedarPolicies '' permit(a); forbid(b) ; '' = Inr ?m"
    by code_simp
  from statements_trimmed_and_terminated [of "'' permit(a); forbid(b) ; ''" ?m]
  have "splitCedarPolicies '' permit(a); forbid(b) ; '' = Inr ?m \<longrightarrow>
   (\<forall>(k, t)\<in>set ?m.
       t \<noteq> [] \<and> \<not> is_ws (hd t) \<and> \<not> is_ws (last t) \<and> last t = semicolon \<and> trim t = t)"
    by (rule conjunct1)
  then have "\<forall>(k, t)\<in>set ?m.
       t \<noteq> [] \<and> \<not> is_ws (hd t) \<and> \<not> is_ws (last t) \<and> last t = semicolon \<and> trim t = t"
    using h by (rule mp)
  moreover have "(''policy_1'', ''forbid(b) ;'') \<in> set ?m" by simp
  ultimately have "case (''policy_1'', ''forbid(b) ;'') of (k, t) \<Rightarrow>
       t \<noteq> [] \<and> \<not> is_ws (hd t) \<and> \<not> is_ws (last t) \<and> last t = semicolon \<and> trim t = t"
    by (rule bspec)
  then have "''forbid(b) ;'' \<noteq> [] \<and> \<not> is_ws (hd ''forbid(b) ;'') \<and>
    \<not> is_ws (last ''forbid(b) ;'') \<and> last ''forbid(b) ;'' = semicolon \<and>
    trim ''forbid(b) ;'' = ''forbid(b) ;''"
    unfolding prod.case .
  with h show ?thesis by (rule conjI)
qed

text \<open>
  C7. On success the keys, read in insertion order, are \<open>policy_0\<close>, ...,
  \<open>policy_(k-1)\<close> for the \<open>k\<close> statements the scan retained; they are pairwise
  distinct, and entry \<open>i\<close> holds the \<open>i\<close>-th statement in the order in which the scan
  emitted them, which is source order. Keys are printed in decimal.
\<close>

theorem keys_dense_in_source_order:
  "(splitCedarPolicies s = Inr m \<longrightarrow>
      map fst m = map policy_key [0..<length m] \<and>
      distinct (map fst m) \<and>
      map snd m = results (scan init_state s) \<and>
      (\<forall>i<length m. m ! i = (policy_key i, results (scan init_state s) ! i))) \<and>
   policy_key 0 = ''policy_0'' \<and> policy_key 1 = ''policy_1'' \<and> policy_key 10 = ''policy_10''"
proof (intro conjI impI)
  assume "splitCedarPolicies s = Inr m"
  then have m: "m = zip (map policy_key [0..<length (results (scan init_state s))])
                        (results (scan init_state s))"
    by (simp add: split_success)
  then have len: "length m = length (results (scan init_state s))" by simp
  show k: "map fst m = map policy_key [0..<length m]"
    unfolding len by (subst m) simp
  show "distinct (map fst m)"
    unfolding k by (simp add: distinct_map inj_on_def policy_key_inj)
  show "map snd m = results (scan init_state s)"
    by (subst m) simp
  show "\<forall>i<length m. m ! i = (policy_key i, results (scan init_state s) ! i)"
    unfolding len by (subst m) simp
next
  show "policy_key 0 = ''policy_0''" by code_simp
  show "policy_key 1 = ''policy_1''" by code_simp
  show "policy_key 10 = ''policy_10''" by code_simp
qed

theorem keys_dense_in_source_order_witness:
  "splitCedarPolicies ''a; b;; c;'' =
     Inr [(''policy_0'', ''a;''), (''policy_1'', ''b;''), (''policy_2'', '';''),
          (''policy_3'', ''c;'')] \<and>
   map fst [(''policy_0'', ''a;''), (''policy_1'', ''b;''), (''policy_2'', '';''),
          (''policy_3'', ''c;'')] = map policy_key [0..<4]"
proof -
  have h: "splitCedarPolicies ''a; b;; c;'' =
     Inr [(''policy_0'', ''a;''), (''policy_1'', ''b;''), (''policy_2'', '';''),
          (''policy_3'', ''c;'')]"
    by code_simp
  from keys_dense_in_source_order [of "''a; b;; c;''"
      "[(''policy_0'', ''a;''), (''policy_1'', ''b;''), (''policy_2'', '';''),
          (''policy_3'', ''c;'')]"]
  have "splitCedarPolicies ''a; b;; c;'' =
     Inr [(''policy_0'', ''a;''), (''policy_1'', ''b;''), (''policy_2'', '';''),
          (''policy_3'', ''c;'')] \<longrightarrow>
     map fst [(''policy_0'', ''a;''), (''policy_1'', ''b;''), (''policy_2'', '';''),
          (''policy_3'', ''c;'')] = map policy_key [0..<length [(''policy_0'', ''a;''),
          (''policy_1'', ''b;''), (''policy_2'', '';''), (''policy_3'', ''c;'')]]"
    by blast
  then have "map fst [(''policy_0'', ''a;''), (''policy_1'', ''b;''), (''policy_2'', '';''),
          (''policy_3'', ''c;'')] = map policy_key [0..<length [(''policy_0'', ''a;''),
          (''policy_1'', ''b;''), (''policy_2'', '';''), (''policy_3'', ''c;'')]]"
    using h by (rule mp)
  then have "map fst [(''policy_0'', ''a;''), (''policy_1'', ''b;''), (''policy_2'', '';''),
          (''policy_3'', ''c;'')] = map policy_key [0..<4]"
    by (simp only: list.size One_nat_def add_Suc_right add_0_right numeral_eq_Suc pred_numeral_simps
        Num.BitM.simps)
  with h show ?thesis by (rule conjI)
qed



text \<open>
  C9. When a document splits successfully, the concatenation of the returned statements
  in order, with nothing between them, splits successfully as well, and into the very
  same mapping: the same keys with the same statements in the same order.
\<close>

theorem resplit_idempotent:
  "splitCedarPolicies s = Inr m \<longrightarrow> splitCedarPolicies (concat (map snd m)) = Inr m"
proof
  assume a: "splitCedarPolicies s = Inr m"
  let ?R = "results (scan init_state s)"
  from a have m: "m = zip (map policy_key [0..<length ?R]) ?R" by (simp add: split_success)
  then have sm: "map snd m = ?R" by simp
  have i: "init_state = normal [] None" by (simp add: init_state_def normal_def)
  have "scan init_state (concat ?R) = normal ?R (if ?R = [] then None else Some semicolon)"
    unfolding i by (rule rescan_concat) simp_all
  then have "buf (scan init_state (concat ?R)) = []" "results (scan init_state (concat ?R)) = ?R"
    by simp_all
  then show "splitCedarPolicies (concat (map snd m)) = Inr m"
    unfolding sm split_success using m by simp
qed

theorem resplit_idempotent_witness:
  \<open>splitCedarPolicies
       ('' // first'' @ [newline] @ '' permit(a) when { b == "x;y" }; /*;*/ forbid(c) ;;  '')
     = Inr [(''policy_0'', ''// first'' @ [newline] @ '' permit(a) when { b == "x;y" };''),
            (''policy_1'', ''/*;*/ forbid(c) ;''), (''policy_2'', '';'')] \<and>
   splitCedarPolicies (''// first'' @ [newline] @ '' permit(a) when { b == "x;y" };'' @
        ''/*;*/ forbid(c) ;'' @ '';'')
     = Inr [(''policy_0'', ''// first'' @ [newline] @ '' permit(a) when { b == "x;y" };''),
            (''policy_1'', ''/*;*/ forbid(c) ;''), (''policy_2'', '';'')]\<close>
proof -
  let ?m = \<open>[(''policy_0'', ''// first'' @ [newline] @ '' permit(a) when { b == "x;y" };''),
            (''policy_1'', ''/*;*/ forbid(c) ;''), (''policy_2'', '';'')]\<close>
  let ?s = \<open>'' // first'' @ [newline] @ '' permit(a) when { b == "x;y" }; /*;*/ forbid(c) ;;  ''\<close>
  have h: "splitCedarPolicies ?s = Inr ?m" by code_simp
  from resplit_idempotent [of ?s ?m] h
  have "splitCedarPolicies (concat (map snd ?m)) = Inr ?m" by (rule mp)
  then have \<open>splitCedarPolicies (''// first'' @ [newline] @ '' permit(a) when { b == "x;y" };'' @
        ''/*;*/ forbid(c) ;'' @ '';'') = Inr ?m\<close>
    by simp
  with h show ?thesis by (rule conjI)
qed

text \<open>
  C10. Opening a block comment consumes \<open>/*\<close> and sets the lookback to \<open>*\<close>; in a block
  comment with lookback \<open>*\<close> the character \<open>/\<close> closes the comment. So at a structural
  position the three characters \<open>/*/\<close> open and close a block comment: the scan goes on
  after them outside any comment. The document \<open>/*/;\<close> is one statement, its terminator
  being structural.
\<close>

theorem block_opener_star_closes:
  "(\<not> inString st \<and> \<not> inLineComment st \<and> \<not> inBlockComment st \<longrightarrow>
      step st slash (Some star) =
        (st\<lparr>inBlockComment := True, buf := buf st @ [slash, star], prev := Some star\<rparr>, True)) \<and>
   (inBlockComment st \<and> \<not> inLineComment st \<and> prev st = Some star \<longrightarrow>
      step st slash nxt =
        (st\<lparr>buf := buf st @ [slash], inBlockComment := False, prev := Some slash\<rparr>, False)) \<and>
   (\<not> inString st \<and> \<not> inLineComment st \<and> \<not> inBlockComment st \<longrightarrow>
      scan st (slash # star # slash # rest) =
        scan (st\<lparr>inBlockComment := False, buf := buf st @ [slash, star, slash],
                 prev := Some slash\<rparr>) rest) \<and>
   splitCedarPolicies ''/*/;'' = Inr [(''policy_0'', ''/*/;'')]"
proof (intro conjI impI)
  assume "\<not> inString st \<and> \<not> inLineComment st \<and> \<not> inBlockComment st"
  then show "step st slash (Some star) =
        (st\<lparr>inBlockComment := True, buf := buf st @ [slash, star], prev := Some star\<rparr>, True)"
    by (simp add: step_open structural_def)
next
  assume "inBlockComment st \<and> \<not> inLineComment st \<and> prev st = Some star"
  then show "step st slash nxt =
        (st\<lparr>buf := buf st @ [slash], inBlockComment := False, prev := Some slash\<rparr>, False)"
    by (simp add: step_block_comment)
next
  assume a: "\<not> inString st \<and> \<not> inLineComment st \<and> \<not> inBlockComment st"
  then have s: "structural st" by (simp add: structural_def)
  let ?s1 = "st\<lparr>inBlockComment := True, buf := buf st @ [slash, star], prev := Some star\<rparr>"
  have "scan st (slash # star # slash # rest) = scan ?s1 (slash # rest)"
    using s by (simp add: scan_opener step_open)
  also have "\<dots> = scan (fst (step ?s1 slash (lookahead rest))) rest"
    by (rule scan_Cons_one) (simp add: step_skip_iff structural_def)
  also have "fst (step ?s1 slash (lookahead rest)) =
    st\<lparr>inBlockComment := False, buf := buf st @ [slash, star, slash], prev := Some slash\<rparr>"
    using a by (simp add: step_block_comment)
  finally show "scan st (slash # star # slash # rest) =
        scan (st\<lparr>inBlockComment := False, buf := buf st @ [slash, star, slash],
                 prev := Some slash\<rparr>) rest" .
next
  show "splitCedarPolicies ''/*/;'' = Inr [(''policy_0'', ''/*/;'')]" by code_simp
qed

theorem block_opener_star_closes_witness:
  "\<not> inString init_state \<and> \<not> inLineComment init_state \<and> \<not> inBlockComment init_state \<and>
   step init_state slash (Some star) =
     (init_state\<lparr>inBlockComment := True, buf := [slash, star], prev := Some star\<rparr>, True) \<and>
   inBlockComment (init_state\<lparr>inBlockComment := True, buf := [slash, star], prev := Some star\<rparr>) \<and>
   step (init_state\<lparr>inBlockComment := True, buf := [slash, star], prev := Some star\<rparr>) slash None =
     (init_state\<lparr>buf := [slash, star, slash], prev := Some slash\<rparr>, False) \<and>
   scan init_state [slash, star, slash] = init_state\<lparr>buf := [slash, star, slash], prev := Some slash\<rparr>"
  using block_opener_star_closes [where st = init_state and rest = "[]"]
    block_opener_star_closes
      [where st = "init_state\<lparr>inBlockComment := True, buf := [slash, star], prev := Some star\<rparr>"
        and nxt = None]
  by (simp add: init_state_def)

end
